theory Spec2Isabelle
  imports
    Complex_Main
    "HOL-Library.Multiset"
    "HOL-Library.Product_Lexorder"
    "HOL-Library.Sublist"
begin

section \<open>Values, documents and records\<close>

text \<open>
  The page works on loosely typed JavaScript objects: the TypeScript annotations
  (\<^verbatim>\<open>as Timestamp\<close>, \<^verbatim>\<open>as BloodRequest\<close>) are erased before the program runs, and
  the interface \<^verbatim>\<open>BloodRequest\<close> does not even declare the \<^verbatim>\<open>urgency\<close> property that
  the comparator reads. A property value is therefore a \<open>jsval\<close>, an object is a
  finite map from property names to values, and reading an absent property yields
  \<open>Undefined\<close>. The values are the primitive ones and timestamps; the arrays and
  nested maps that a document may also hold are not modelled.

  Firestore's \<^verbatim>\<open>Timestamp\<close> is used only through \<^verbatim>\<open>toMillis()\<close>, which returns
  \<^verbatim>\<open>seconds * 1000 + nanoseconds / 1e6\<close>, a number that need not be whole. A
  timestamp is modelled by the number that call returns; every finite
  JavaScript number is a rational.

  A \<open>char\<close> stands for one UTF-16 code unit below 256, so a \<open>string\<close> is a
  JavaScript string over the Latin-1 range.
\<close>

datatype Timestamp = Timestamp (toMillis: rat)

datatype jsval =
    Undefined
  | Null
  | JBool bool
  | JNum int
  | JStr string
  | JTime Timestamp

type_synonym DocumentData = "string \<rightharpoonup> jsval"

type_synonym BloodRequest = "string \<rightharpoonup> jsval"

definition getProp :: "(string \<rightharpoonup> jsval) \<Rightarrow> string \<Rightarrow> jsval" where
  "getProp obj k = (case obj k of None \<Rightarrow> Undefined | Some v \<Rightarrow> v)"

text \<open>The only exception the page's own code can raise is a \<^verbatim>\<open>TypeError\<close>
  (a method called on a value that does not have it).\<close>

datatype error = TypeError

definition bindE :: "error + 'a \<Rightarrow> ('a \<Rightarrow> error + 'b) \<Rightarrow> error + 'b" where
  "bindE m f = (case m of Inl e \<Rightarrow> Inl e | Inr x \<Rightarrow> f x)"

section \<open>The snapshot callback\<close>

record QueryDocumentSnapshot =
  docId :: string
  docData :: DocumentData

text \<open>
  \<^verbatim>\<open>{ id: doc.id, ...doc.data(), createdAt: doc.data().createdAt as Timestamp }\<close>:
  the literal is built left to right, a later key overriding an earlier one.
\<close>

definition toBloodRequest :: "QueryDocumentSnapshot \<Rightarrow> BloodRequest" where
  "toBloodRequest d =
     ([''id'' \<mapsto> JStr (docId d)] ++ docData d)
       (''createdAt'' \<mapsto> getProp (docData d) ''createdAt'')"

text \<open>\<^verbatim>\<open>querySnapshot.forEach((doc) => fetchedRequests.push(...))\<close>\<close>

definition fetchedRequests :: "QueryDocumentSnapshot list \<Rightarrow> BloodRequest list" where
  "fetchedRequests docs = fold (\<lambda>d acc. acc @ [toBloodRequest d]) docs []"

section \<open>Strings\<close>

text \<open>
  \<^verbatim>\<open>toLowerCase\<close> maps each code unit below 256 to a code unit below 256: the
  letters \<^verbatim>\<open>A\<close> to \<^verbatim>\<open>Z\<close> and the accented capitals \<^verbatim>\<open>U+00C0\<close> to \<^verbatim>\<open>U+00DE\<close>, the
  multiplication sign \<^verbatim>\<open>U+00D7\<close> apart, move up by 32; every other one stays.
\<close>

definition lowerChar :: "char \<Rightarrow> char" where
  "lowerChar c =
     (case map_of (zip ''ABCDEFGHIJKLMNOPQRSTUVWXYZ'' ''abcdefghijklmnopqrstuvwxyz'') c of
        Some d \<Rightarrow> d
      | None \<Rightarrow>
          (let n = (of_char c :: nat)
           in if 192 \<le> n \<and> n \<le> 222 \<and> n \<noteq> 215 then char_of (n + 32) else c))"

definition toLowerCase :: "string \<Rightarrow> string" where
  "toLowerCase s = map lowerChar s"

text \<open>\<^verbatim>\<open>String.prototype.includes\<close>: is \<open>t\<close> a contiguous part of \<open>s\<close>?\<close>

fun includes_str :: "string \<Rightarrow> string \<Rightarrow> bool" where
  "includes_str [] t = (t = [])"
| "includes_str (c # s) t = (prefix t (c # s) \<or> includes_str s t)"

text \<open>JavaScript's \<^verbatim>\<open><\<close> on two strings: the first differing code unit decides,
  and a proper prefix is smaller.\<close>

fun str_less :: "string \<Rightarrow> string \<Rightarrow> bool" where
  "str_less [] [] = False"
| "str_less [] (d # t) = True"
| "str_less (c # s) [] = False"
| "str_less (c # s) (d # t) =
     (if c = d then str_less s t else (of_char c :: nat) < of_char d)"

section \<open>The filter and sort engine\<close>

text \<open>\<^verbatim>\<open>Array.prototype.filter\<close> with a callback that may throw.\<close>

fun filterM :: "('a \<Rightarrow> error + bool) \<Rightarrow> 'a list \<Rightarrow> error + 'a list" where
  "filterM p [] = Inr []"
| "filterM p (x # xs) =
     (case p x of
        Inl e \<Rightarrow> Inl e
      | Inr b \<Rightarrow>
          (case filterM p xs of
             Inl e \<Rightarrow> Inl e
           | Inr ys \<Rightarrow> Inr (if b then x # ys else ys)))"

text \<open>\<^verbatim>\<open>req => bloodGroupFilter === "all" || req.bloodGroup === bloodGroupFilter\<close>\<close>

definition bloodGroupPred :: "string \<Rightarrow> BloodRequest \<Rightarrow> error + bool" where
  "bloodGroupPred g req = Inr (g = ''all'' \<or> getProp req ''bloodGroup'' = JStr g)"

text \<open>
  \<^verbatim>\<open>req => locationFilter === "" || req.location.toLowerCase().includes(locationFilter.toLowerCase())\<close>:
  the location is read only when the filter is not empty, and only a string has
  \<^verbatim>\<open>toLowerCase\<close>.
\<close>

definition locationPred :: "string \<Rightarrow> BloodRequest \<Rightarrow> error + bool" where
  "locationPred l req =
     (if l = '''' then Inr True
      else (case getProp req ''location'' of
              JStr s \<Rightarrow> Inr (includes_str (toLowerCase s) (toLowerCase l))
            | _ \<Rightarrow> Inl TypeError))"

text \<open>
  \<^verbatim>\<open>const urgencyOrder = { Urgent: 1, Moderate: 2, Low: 3 }\<close> is an object literal,
  so a lookup that misses the three keys goes on to \<^verbatim>\<open>Object.prototype\<close>. A
  lookup therefore yields a number, or a member of \<^verbatim>\<open>Object.prototype\<close>, or
  \<^verbatim>\<open>undefined\<close>. The comparator only applies \<^verbatim>\<open><\<close> and \<^verbatim>\<open>>\<close> to what it finds, and
  these operators see an inherited member as the text it converts to: its source
  text for a built-in function, \<^verbatim>\<open>[object Object]\<close> for \<^verbatim>\<open>__proto__\<close>.
\<close>

datatype looked_up = Number int | Text string | NoValue

definition objectPrototype :: "(string \<times> string) list" where
  "objectPrototype =
     [(''constructor'', ''function Object() { [native code] }''),
      (''__defineGetter__'', ''function __defineGetter__() { [native code] }''),
      (''__defineSetter__'', ''function __defineSetter__() { [native code] }''),
      (''hasOwnProperty'', ''function hasOwnProperty() { [native code] }''),
      (''__lookupGetter__'', ''function __lookupGetter__() { [native code] }''),
      (''__lookupSetter__'', ''function __lookupSetter__() { [native code] }''),
      (''isPrototypeOf'', ''function isPrototypeOf() { [native code] }''),
      (''propertyIsEnumerable'', ''function propertyIsEnumerable() { [native code] }''),
      (''toString'', ''function toString() { [native code] }''),
      (''valueOf'', ''function valueOf() { [native code] }''),
      (''__proto__'', ''[object Object]''),
      (''toLocaleString'', ''function toLocaleString() { [native code] }'')]"

text \<open>A property key that is not a string is converted to one; no value of
  \<open>jsval\<close> other than a string converts to one of the fifteen names.\<close>

definition urgencyOrder :: "jsval \<Rightarrow> looked_up" where
  "urgencyOrder v =
     (case v of
        JStr s \<Rightarrow>
          (if s = ''Urgent'' then Number 1
           else if s = ''Moderate'' then Number 2
           else if s = ''Low'' then Number 3
           else (case map_of objectPrototype s of
                   Some t \<Rightarrow> Text t
                 | None \<Rightarrow> NoValue))
      | _ \<Rightarrow> NoValue)"

text \<open>
  JavaScript's \<^verbatim>\<open><\<close> on the results of two lookups. Two numbers compare as
  numbers and two texts as strings; in every other case one side converts to
  \<^verbatim>\<open>NaN\<close> and the answer is false.
\<close>

definition js_less :: "looked_up \<Rightarrow> looked_up \<Rightarrow> bool" where
  "js_less x y =
     (case (x, y) of
        (Number m, Number n) \<Rightarrow> m < n
      | (Text s, Text t) \<Rightarrow> str_less s t
      | _ \<Rightarrow> False)"

text \<open>\<^verbatim>\<open>r.createdAt.toMillis()\<close>\<close>

definition createdAtMillis :: "BloodRequest \<Rightarrow> error + rat" where
  "createdAtMillis r =
     (case getProp r ''createdAt'' of
        JTime t \<Rightarrow> Inr (toMillis t)
      | _ \<Rightarrow> Inl TypeError)"

text \<open>The comparator handed to \<^verbatim>\<open>sort\<close>. Only the sign of its result is used, and
  the sign of a difference of two JavaScript numbers is that of the exact
  difference.\<close>

definition compareRequests :: "BloodRequest \<Rightarrow> BloodRequest \<Rightarrow> error + rat" where
  "compareRequests a b =
     (if js_less (urgencyOrder (getProp a ''urgency'')) (urgencyOrder (getProp b ''urgency''))
      then Inr (- 1)
      else if js_less (urgencyOrder (getProp b ''urgency'')) (urgencyOrder (getProp a ''urgency''))
      then Inr 1
      else bindE (createdAtMillis b) (\<lambda>mb.
           bindE (createdAtMillis a) (\<lambda>ma. Inr (mb - ma))))"

subsection \<open>The runtime's sort\<close>

text \<open>
  \<^verbatim>\<open>Array.prototype.sort\<close> belongs to the language runtime. ECMAScript requires it
  to be stable when the comparator is a consistent ordering of the elements, and
  leaves the order to the implementation when it is not. The model follows the
  implementation in V8 (Chrome, Node): it finds the run with which the array
  begins, reversing it when it is strictly descending, and then places each
  further element into the sorted front by binary search. An exception of the
  comparator ends the sort. For arrays of fewer than 64 elements this is all V8
  does; it cuts a longer array into several such runs and merges them, which
  gives the same array whenever the comparator is a consistent ordering.
\<close>

text \<open>How many of the elements after \<open>prev\<close> continue the run.\<close>

fun countRun :: "('a \<Rightarrow> 'a \<Rightarrow> error + rat) \<Rightarrow> bool \<Rightarrow> 'a \<Rightarrow> 'a list \<Rightarrow> error + nat" where
  "countRun cmp isDescending prev [] = Inr 0"
| "countRun cmp isDescending prev (x # xs) =
     (case cmp x prev of
        Inl e \<Rightarrow> Inl e
      | Inr order \<Rightarrow>
          (if (if isDescending then 0 \<le> order else order < 0) then Inr 0
           else (case countRun cmp isDescending x xs of
                   Inl e \<Rightarrow> Inl e
                 | Inr n \<Rightarrow> Inr (Suc n))))"

text \<open>The length of the initial run, and the array with that run made ascending.\<close>

fun countAndMakeRun :: "('a \<Rightarrow> 'a \<Rightarrow> error + rat) \<Rightarrow> 'a list \<Rightarrow> error + nat \<times> 'a list" where
  "countAndMakeRun cmp [] = Inr (0, [])"
| "countAndMakeRun cmp [x] = Inr (1, [x])"
| "countAndMakeRun cmp (x0 # x1 # xs) =
     (case cmp x1 x0 of
        Inl e \<Rightarrow> Inl e
      | Inr order \<Rightarrow>
          (case countRun cmp (order < 0) x1 xs of
             Inl e \<Rightarrow> Inl e
           | Inr n \<Rightarrow>
               Inr (n + 2,
                    if order < 0
                    then rev (take (n + 2) (x0 # x1 # xs)) @ drop (n + 2) (x0 # x1 # xs)
                    else x0 # x1 # xs)))"

text \<open>The binary search for the place of \<open>pivot\<close> in the sorted front \<open>a\<close>,
  between \<open>left\<close> and \<open>right\<close>.\<close>

function findInsertion ::
  "('a \<Rightarrow> 'a \<Rightarrow> error + rat) \<Rightarrow> 'a \<Rightarrow> 'a list \<Rightarrow> nat \<Rightarrow> nat \<Rightarrow> error + nat" where
  "findInsertion cmp pivot a left right =
     (if left < right
      then (let mid = left + (right - left) div 2
            in case cmp pivot (a ! mid) of
                 Inl e \<Rightarrow> Inl e
               | Inr order \<Rightarrow>
                   (if order < 0 then findInsertion cmp pivot a left mid
                    else findInsertion cmp pivot a (mid + 1) right))
      else Inr left)"
  by pat_completeness auto
termination
  by (relation "measure (\<lambda>(cmp, pivot, a, left, right). right - left)") auto

fun binaryInsertionSort ::
  "('a \<Rightarrow> 'a \<Rightarrow> error + rat) \<Rightarrow> 'a list \<Rightarrow> 'a list \<Rightarrow> error + 'a list" where
  "binaryInsertionSort cmp a [] = Inr a"
| "binaryInsertionSort cmp a (pivot # rest) =
     (case findInsertion cmp pivot a 0 (length a) of
        Inl e \<Rightarrow> Inl e
      | Inr left \<Rightarrow> binaryInsertionSort cmp (take left a @ pivot # drop left a) rest)"

definition sortM :: "('a \<Rightarrow> 'a \<Rightarrow> error + rat) \<Rightarrow> 'a list \<Rightarrow> error + 'a list" where
  "sortM cmp xs =
     (if length xs < 2 then Inr xs
      else (case countAndMakeRun cmp xs of
              Inl e \<Rightarrow> Inl e
            | Inr (n, ys) \<Rightarrow> binaryInsertionSort cmp (take n ys) (drop n ys)))"

subsection \<open>The chain\<close>

text \<open>The two \<^verbatim>\<open>.filter\<close> calls, then \<^verbatim>\<open>.sort\<close>, as the chain in \<^verbatim>\<open>useMemo\<close>.\<close>

definition filterStep :: "BloodRequest list \<Rightarrow> string \<Rightarrow> string \<Rightarrow> error + BloodRequest list" where
  "filterStep reqs g l =
     bindE (filterM (bloodGroupPred g) reqs) (filterM (locationPred l))"

definition sortStep :: "BloodRequest list \<Rightarrow> error + BloodRequest list" where
  "sortStep reqs = sortM compareRequests reqs"

definition filteredRequests :: "BloodRequest list \<Rightarrow> string \<Rightarrow> string \<Rightarrow> error + BloodRequest list" where
  "filteredRequests reqs g l = bindE (filterStep reqs g l) sortStep"

section \<open>The engine on arrays in a store\<close>





section \<open>The page's state and its events\<close>

record PageState =
  requests :: "BloodRequest list"
  loading :: bool
  bloodGroupFilter :: string
  locationFilter :: string

text \<open>The four \<^verbatim>\<open>useState\<close> initial values.\<close>

definition initialState :: PageState where
  "initialState =
     \<lparr>requests = [], loading = True, bloodGroupFilter = ''all'', locationFilter = ''''\<rparr>"

definition resetFilters :: "PageState \<Rightarrow> PageState" where
  "resetFilters s = s\<lparr>bloodGroupFilter := ''all'', locationFilter := ''''\<rparr>"

text \<open>
  What a handler does besides updating the state: \<^verbatim>\<open>onSnapshot(...)\<close> opens the
  subscription, \<^verbatim>\<open>unsubscribe()\<close> closes it, \<^verbatim>\<open>console.error(...)\<close> logs.
\<close>

datatype Effect = Subscribe | Unsubscribe | ConsoleError

datatype Event =
    Mount
  | Unmount
  | Snapshot "QueryDocumentSnapshot list"
  | SubscriptionError
  | SetBloodGroupFilter string
  | SetLocationFilter string
  | ResetFilters

fun handle :: "Event \<Rightarrow> PageState \<Rightarrow> PageState \<times> Effect list" where
  "handle Mount s = (s, [Subscribe])"
| "handle Unmount s = (s, [Unsubscribe])"
| "handle (Snapshot docs) s = (s\<lparr>requests := fetchedRequests docs, loading := False\<rparr>, [])"
| "handle SubscriptionError s = (s\<lparr>loading := False\<rparr>, [ConsoleError])"
| "handle (SetBloodGroupFilter g) s = (s\<lparr>bloodGroupFilter := g\<rparr>, [])"
| "handle (SetLocationFilter l) s = (s\<lparr>locationFilter := l\<rparr>, [])"
| "handle ResetFilters s = (resetFilters s, [])"

fun run :: "Event list \<Rightarrow> PageState \<Rightarrow> PageState" where
  "run [] s = s"
| "run (e # es) s = run es (fst (handle e s))"


section \<open>Notions used to state the properties\<close>

text \<open>A record is sortable when its urgency is one of the three ranks and its
  \<^verbatim>\<open>createdAt\<close> is a timestamp, as the specification's data model requires.\<close>

definition isTimestamp :: "jsval \<Rightarrow> bool" where
  "isTimestamp v = (case v of JTime t \<Rightarrow> True | _ \<Rightarrow> False)"

definition hasUrgency :: "BloodRequest \<Rightarrow> bool" where
  "hasUrgency r =
     (getProp r ''urgency'' = JStr ''Urgent'' \<or>
      getProp r ''urgency'' = JStr ''Moderate'' \<or>
      getProp r ''urgency'' = JStr ''Low'')"

definition hasTimestamp :: "BloodRequest \<Rightarrow> bool" where
  "hasTimestamp r = isTimestamp (getProp r ''createdAt'')"

definition hasLocation :: "BloodRequest \<Rightarrow> bool" where
  "hasLocation r = (case getProp r ''location'' of JStr s \<Rightarrow> True | _ \<Rightarrow> False)"

definition sortable :: "BloodRequest \<Rightarrow> bool" where
  "sortable r = (hasUrgency r \<and> hasTimestamp r)"

text \<open>The urgency is absent, or is a value that names neither a rank nor a
  member of \<^verbatim>\<open>Object.prototype\<close>.\<close>

definition urgencyUnlisted :: "BloodRequest \<Rightarrow> bool" where
  "urgencyUnlisted r =
     (case getProp r ''urgency'' of
        JStr s \<Rightarrow> s \<notin> set [''Urgent'', ''Moderate'', ''Low''] \<and> s \<notin> set (map fst objectPrototype)
      | _ \<Rightarrow> True)"

text \<open>The rank of the specification: \<^verbatim>\<open>Urgent\<close> is 1, \<^verbatim>\<open>Moderate\<close> is 2, \<^verbatim>\<open>Low\<close> is 3.\<close>

definition rankOf :: "BloodRequest \<Rightarrow> int" where
  "rankOf r =
     (if getProp r ''urgency'' = JStr ''Urgent'' then 1
      else if getProp r ''urgency'' = JStr ''Moderate'' then 2
      else if getProp r ''urgency'' = JStr ''Low'' then 3
      else 0)"

definition millisOf :: "BloodRequest \<Rightarrow> rat" where
  "millisOf r = (case getProp r ''createdAt'' of JTime t \<Rightarrow> toMillis t | _ \<Rightarrow> 0)"

text \<open>The composite key: urgency rank ascending, then creation time descending.\<close>

definition sortKey :: "BloodRequest \<Rightarrow> int \<times> rat" where
  "sortKey r = (rankOf r, - millisOf r)"

definition precedes :: "BloodRequest \<Rightarrow> BloodRequest \<Rightarrow> bool" where
  "precedes a b = (rankOf a < rankOf b \<or> (rankOf a = rankOf b \<and> millisOf b \<le> millisOf a))"

definition isCallback :: "Event \<Rightarrow> bool" where
  "isCallback e = (case e of Snapshot docs \<Rightarrow> True | SubscriptionError \<Rightarrow> True | _ \<Rightarrow> False)"

text \<open>A comparator agrees with a key on a set when it returns on every pair of
  the set and its result is negative exactly for a smaller key and zero exactly
  for an equal one.\<close>

definition agrees :: "('a \<Rightarrow> 'a \<Rightarrow> error + rat) \<Rightarrow> ('a \<Rightarrow> 'k::linorder) \<Rightarrow> 'a set \<Rightarrow> bool" where
  "agrees cmp f A =
     (\<forall>x\<in>A. \<forall>y\<in>A. \<exists>c. cmp x y = Inr c \<and> (c < 0 \<longleftrightarrow> f x < f y) \<and> (c = 0 \<longleftrightarrow> f x = f y))"

text \<open>A comparator returns on a set when it raises on no pair of the set.\<close>

definition returnsOn :: "('a \<Rightarrow> 'a \<Rightarrow> error + rat) \<Rightarrow> 'a set \<Rightarrow> bool" where
  "returnsOn cmp A = (\<forall>x\<in>A. \<forall>y\<in>A. \<exists>c. cmp x y = Inr c)"

section \<open>Example records\<close>

text \<open>Concrete records and documents on which the theorems below are instantiated.\<close>

definition exampleModerate :: BloodRequest where
  "exampleModerate = map_of
     [(''id'', JStr ''1''), (''urgency'', JStr ''Moderate''),
      (''createdAt'', JTime (Timestamp 2000)), (''bloodGroup'', JStr ''A+''),
      (''location'', JStr ''Dhaka'')]"

definition exampleUrgent :: BloodRequest where
  "exampleUrgent = map_of
     [(''id'', JStr ''2''), (''urgency'', JStr ''Urgent''),
      (''createdAt'', JTime (Timestamp 1000)), (''bloodGroup'', JStr ''O-''),
      (''location'', JStr ''Chittagong'')]"

definition exampleTie :: BloodRequest where
  "exampleTie = map_of
     [(''id'', JStr ''3''), (''urgency'', JStr ''Moderate''),
      (''createdAt'', JTime (Timestamp 2000)), (''bloodGroup'', JStr ''B+''),
      (''location'', JStr ''Sylhet'')]"

definition exampleNoUrgency :: BloodRequest where
  "exampleNoUrgency = map_of
     [(''id'', JStr ''4''), (''createdAt'', JTime (Timestamp 3000)),
      (''bloodGroup'', JStr ''AB+''), (''location'', JStr ''Khulna'')]"

definition exampleModerateNew :: BloodRequest where
  "exampleModerateNew = map_of
     [(''id'', JStr ''5''), (''urgency'', JStr ''Moderate''),
      (''createdAt'', JTime (Timestamp 5000)), (''bloodGroup'', JStr ''A+''),
      (''location'', JStr ''Dhaka'')]"

definition exampleUrgentTwin :: BloodRequest where
  "exampleUrgentTwin = map_of
     [(''id'', JStr ''6''), (''urgency'', JStr ''Urgent''),
      (''createdAt'', JTime (Timestamp 1000)), (''bloodGroup'', JStr ''O-''),
      (''location'', JStr ''Chittagong'')]"

definition exampleUrgent8000 :: BloodRequest where
  "exampleUrgent8000 = map_of
     [(''id'', JStr ''7''), (''urgency'', JStr ''Urgent''),
      (''createdAt'', JTime (Timestamp 8000)), (''bloodGroup'', JStr ''B-''),
      (''location'', JStr ''Rajshahi'')]"

definition exampleUrgent9000 :: BloodRequest where
  "exampleUrgent9000 = map_of
     [(''id'', JStr ''8''), (''urgency'', JStr ''Urgent''),
      (''createdAt'', JTime (Timestamp 9000)), (''bloodGroup'', JStr ''B-''),
      (''location'', JStr ''Rajshahi'')]"

definition exampleUrgent9999 :: BloodRequest where
  "exampleUrgent9999 = map_of
     [(''id'', JStr ''9''), (''urgency'', JStr ''Urgent''),
      (''createdAt'', JTime (Timestamp 9999)), (''bloodGroup'', JStr ''B-''),
      (''location'', JStr ''Rajshahi'')]"

definition exampleLowPending :: BloodRequest where
  "exampleLowPending = map_of
     [(''id'', JStr ''10''), (''urgency'', JStr ''Low''),
      (''createdAt'', Null), (''bloodGroup'', JStr ''O+''),
      (''location'', JStr ''Barisal'')]"

definition exampleLowPendingToo :: BloodRequest where
  "exampleLowPendingToo = map_of
     [(''id'', JStr ''11''), (''urgency'', JStr ''Low''),
      (''createdAt'', Null), (''bloodGroup'', JStr ''O+''),
      (''location'', JStr ''Barisal'')]"

definition exampleDoc :: QueryDocumentSnapshot where
  "exampleDoc = \<lparr>docId = ''abc'', docData = map_of
     [(''userId'', JStr ''u1''), (''bloodGroup'', JStr ''A+''), (''location'', JStr ''Dhaka''),
      (''createdAt'', JTime (Timestamp 2000)), (''status'', JStr ''active'')]\<rparr>"

definition exampleDocTextDate :: QueryDocumentSnapshot where
  "exampleDocTextDate = \<lparr>docId = ''def'', docData = map_of
     [(''userId'', JStr ''u2''), (''bloodGroup'', JStr ''O-''), (''location'', JStr ''Chittagong''),
      (''createdAt'', JStr ''2024-05-01''), (''status'', JStr ''active'')]\<rparr>"

section \<open>Auxiliary facts\<close>

declare findInsertion.simps [simp del]

lemma includes_sublist: "includes_str s t = sublist t s"
  by (induction s) (auto simp: sublist_Cons_right)

lemma filterM_Inr: "filterM p xs = Inr ys \<Longrightarrow> ys = filter (\<lambda>x. p x = Inr True) xs"
  by (induction xs arbitrary: ys) (auto split: sum.splits if_splits)

subsection \<open>The sort keeps the elements\<close>

lemma countRun_le: "countRun cmp d prev xs = Inr n \<Longrightarrow> n \<le> length xs"
  by (induction xs arbitrary: prev n) (auto split: sum.splits if_splits)

lemma countAndMakeRun_mset:
  "countAndMakeRun cmp xs = Inr (n, ys) \<Longrightarrow> mset ys = mset xs"
proof (induction cmp xs rule: countAndMakeRun.induct)
  case (3 cmp x0 x1 xs)
  let ?zs = "x0 # x1 # xs"
  have "mset (rev (take k ?zs) @ drop k ?zs) = mset ?zs" for k
    by (metis append_take_drop_id mset_append mset_rev)
  with 3 show ?case by (auto split: sum.splits if_splits simp del: take_Suc_Cons drop_Suc_Cons)
qed simp_all

lemma findInsertion_le:
  "findInsertion cmp x a left right = Inr l \<Longrightarrow> left \<le> right \<Longrightarrow> left \<le> l \<and> l \<le> right"
proof (induction cmp x a left right rule: findInsertion.induct)
  case (1 cmp pivot a left right)
  show ?case
  proof (cases "left < right")
    case False
    with "1.prems" show ?thesis by (simp add: findInsertion.simps)
  next
    case True
    let ?mid = "left + (right - left) div 2"
    from True have m: "left \<le> ?mid" "?mid < right" by auto
    from "1.prems"(1) True obtain c where c: "cmp pivot (a ! ?mid) = Inr c"
      by (subst (asm) findInsertion.simps) (auto simp: Let_def split: sum.splits)
    show ?thesis
    proof (cases "c < 0")
      case True
      with "1.prems"(1) \<open>left < right\<close> c have "findInsertion cmp pivot a left ?mid = Inr l"
        by (subst (asm) findInsertion.simps) (simp add: Let_def)
      from "1.IH"(1)[OF \<open>left < right\<close> refl c True this] m show ?thesis by simp
    next
      case False
      with "1.prems"(1) \<open>left < right\<close> c have "findInsertion cmp pivot a (?mid + 1) right = Inr l"
        by (subst (asm) findInsertion.simps) (simp add: Let_def)
      from "1.IH"(2)[OF \<open>left < right\<close> refl c False this] m show ?thesis by simp
    qed
  qed
qed

lemma binaryInsertionSort_mset:
  "binaryInsertionSort cmp a rest = Inr ys \<Longrightarrow> mset ys = mset a + mset rest"
proof (induction rest arbitrary: a)
  case Nil
  then show ?case by simp
next
  case (Cons pivot rest)
  from Cons.prems obtain l where l: "findInsertion cmp pivot a 0 (length a) = Inr l"
    and r: "binaryInsertionSort cmp (take l a @ pivot # drop l a) rest = Inr ys"
    by (auto split: sum.splits)
  have "mset (take l a @ pivot # drop l a) = add_mset pivot (mset a)"
    by (metis append_take_drop_id mset.simps(2) mset_append union_mset_add_mset_right)
  with Cons.IH[OF r] show ?case by simp
qed

lemma sortM_mset: "sortM cmp xs = Inr ys \<Longrightarrow> mset ys = mset xs"
proof (cases "length xs < 2")
  case True
  assume "sortM cmp xs = Inr ys"
  with True show ?thesis by (simp add: sortM_def)
next
  case False
  assume "sortM cmp xs = Inr ys"
  with False obtain n zs where z: "countAndMakeRun cmp xs = Inr (n, zs)"
    and b: "binaryInsertionSort cmp (take n zs) (drop n zs) = Inr ys"
    by (auto simp: sortM_def split: sum.splits)
  from binaryInsertionSort_mset[OF b] have "mset ys = mset zs"
    by (metis append_take_drop_id mset_append)
  with countAndMakeRun_mset[OF z] show ?thesis by simp
qed

subsection \<open>The sort returns when the comparator does\<close>

lemma countRun_returns:
  "returnsOn cmp A \<Longrightarrow> prev \<in> A \<Longrightarrow> set xs \<subseteq> A \<Longrightarrow> \<exists>n. countRun cmp d prev xs = Inr n"
proof (induction xs arbitrary: prev)
  case Nil
  then show ?case by simp
next
  case (Cons x xs)
  then obtain c where "cmp x prev = Inr c" unfolding returnsOn_def by (meson list.set_intros(1) subsetD)
  moreover from Cons.prems have "x \<in> A" "set xs \<subseteq> A" by auto
  from Cons.IH[OF Cons.prems(1) this] obtain n where "countRun cmp d x xs = Inr n" ..
  ultimately show ?case by simp
qed

lemma countAndMakeRun_returns:
  assumes "returnsOn cmp A" and "set xs \<subseteq> A"
  shows "\<exists>n ys. countAndMakeRun cmp xs = Inr (n, ys)"
proof (cases xs)
  case Nil
  then show ?thesis by simp
next
  case (Cons x0 ys)
  show ?thesis
  proof (cases ys)
    case Nil
    with Cons show ?thesis by simp
  next
    case (Cons x1 zs)
    with \<open>xs = x0 # ys\<close> assms have in_A: "x0 \<in> A" "x1 \<in> A" "set zs \<subseteq> A" by auto
    with assms(1) obtain c where c: "cmp x1 x0 = Inr c" unfolding returnsOn_def by blast
    from countRun_returns[OF assms(1) in_A(2,3)]
    obtain n where "countRun cmp (c < 0) x1 zs = Inr n" ..
    with c Cons \<open>xs = x0 # ys\<close> show ?thesis by simp
  qed
qed

lemma findInsertion_returns:
  "returnsOn cmp A \<Longrightarrow> x \<in> A \<Longrightarrow> set a \<subseteq> A \<Longrightarrow> right \<le> length a \<Longrightarrow>
   \<exists>l. findInsertion cmp x a left right = Inr l"
proof (induction cmp x a left right rule: findInsertion.induct)
  case (1 cmp pivot a left right)
  show ?case
  proof (cases "left < right")
    case False
    then show ?thesis by (simp add: findInsertion.simps)
  next
    case True
    let ?mid = "left + (right - left) div 2"
    from True "1.prems" have "?mid < length a" by auto
    then have "a ! ?mid \<in> A" using "1.prems" by (meson nth_mem subsetD)
    with "1.prems" obtain c where c: "cmp pivot (a ! ?mid) = Inr c"
      unfolding returnsOn_def by blast
    show ?thesis
    proof (cases "c < 0")
      case True
      from \<open>?mid < length a\<close> have "?mid \<le> length a" by simp
      from "1.IH"(1)[OF \<open>left < right\<close> refl c True "1.prems"(1,2,3) this]
      show ?thesis using \<open>left < right\<close> c True
        by (subst findInsertion.simps) (simp add: Let_def)
    next
      case False
      from "1.IH"(2)[OF \<open>left < right\<close> refl c False "1.prems"]
      show ?thesis using \<open>left < right\<close> c False
        by (subst findInsertion.simps) (simp add: Let_def)
    qed
  qed
qed

lemma binaryInsertionSort_returns:
  "returnsOn cmp A \<Longrightarrow> set a \<subseteq> A \<Longrightarrow> set rest \<subseteq> A \<Longrightarrow>
   \<exists>ys. binaryInsertionSort cmp a rest = Inr ys"
proof (induction rest arbitrary: a)
  case Nil
  then show ?case by simp
next
  case (Cons pivot rest)
  from Cons.prems have "\<exists>l. findInsertion cmp pivot a 0 (length a) = Inr l"
    by (intro findInsertion_returns[of cmp A]) auto
  then obtain l where l: "findInsertion cmp pivot a 0 (length a) = Inr l" ..
  have "set (take l a @ pivot # drop l a) \<subseteq> A"
    using Cons.prems by (auto dest: in_set_takeD in_set_dropD)
  from Cons.IH[OF Cons.prems(1) this] Cons.prems(3) l show ?case by simp
qed

lemma sortM_returns:
  assumes "\<forall>x\<in>set xs. \<forall>y\<in>set xs. \<exists>c. cmp x y = Inr c"
  shows "\<exists>ys. sortM cmp xs = Inr ys"
proof (cases "length xs < 2")
  case True
  then show ?thesis by (simp add: sortM_def)
next
  case False
  from assms have r: "returnsOn cmp (set xs)" by (simp add: returnsOn_def)
  from countAndMakeRun_returns[OF r subset_refl]
  obtain n zs where z: "countAndMakeRun cmp xs = Inr (n, zs)" by blast
  from countAndMakeRun_mset[OF z] have "set zs = set xs" by (rule mset_eq_setD)
  then have "set (take n zs) \<subseteq> set xs" "set (drop n zs) \<subseteq> set xs"
    by (auto dest: in_set_takeD in_set_dropD)
  from binaryInsertionSort_returns[OF r this] z False show ?thesis
    by (simp add: sortM_def)
qed

subsection \<open>With a comparator that agrees with a key, the sort is the stable sort\<close>

lemma agreesD:
  assumes "agrees cmp f A" "x \<in> A" "y \<in> A"
  obtains c where "cmp x y = Inr c" "c < 0 \<longleftrightarrow> f x < f y" "c = 0 \<longleftrightarrow> f x = f y"
  using assms unfolding agrees_def by blast

lemma countRun_ascending:
  "agrees cmp f A \<Longrightarrow> prev \<in> A \<Longrightarrow> set xs \<subseteq> A \<Longrightarrow>
   \<exists>n. countRun cmp False prev xs = Inr n \<and> n \<le> length xs \<and>
       sorted (map f (prev # take n xs))"
proof (induction xs arbitrary: prev)
  case Nil
  then show ?case by simp
next
  case (Cons x xs)
  from Cons.prems have x: "x \<in> A" "set xs \<subseteq> A" by auto
  from agreesD[OF Cons.prems(1) x(1) Cons.prems(2)]
  obtain c where c: "cmp x prev = Inr c" "c < 0 \<longleftrightarrow> f x < f prev" by blast
  show ?case
  proof (cases "c < 0")
    case True
    with c show ?thesis by simp
  next
    case False
    from Cons.IH[OF Cons.prems(1) x] obtain n where n: "countRun cmp False x xs = Inr n"
      "n \<le> length xs" "sorted (map f (x # take n xs))" by blast
    from False c have "f prev \<le> f x" by simp
    with n(3) have "sorted (map f (prev # take (Suc n) (x # xs)))" by auto
    with c False n show ?thesis by auto
  qed
qed

lemma countRun_descending:
  "agrees cmp f A \<Longrightarrow> prev \<in> A \<Longrightarrow> set xs \<subseteq> A \<Longrightarrow>
   \<exists>n. countRun cmp True prev xs = Inr n \<and> n \<le> length xs \<and>
       sorted_wrt (>) (map f (prev # take n xs))"
proof (induction xs arbitrary: prev)
  case Nil
  then show ?case by simp
next
  case (Cons x xs)
  from Cons.prems have x: "x \<in> A" "set xs \<subseteq> A" by auto
  from agreesD[OF Cons.prems(1) x(1) Cons.prems(2)]
  obtain c where c: "cmp x prev = Inr c" "c < 0 \<longleftrightarrow> f x < f prev" by blast
  show ?case
  proof (cases "c < 0")
    case False
    with c show ?thesis by simp
  next
    case True
    from Cons.IH[OF Cons.prems(1) x] obtain n where n: "countRun cmp True x xs = Inr n"
      "n \<le> length xs" "sorted_wrt (>) (map f (x # take n xs))" by blast
    from True c have "f x < f prev" by simp
    with n(3) have "sorted_wrt (>) (map f (prev # take (Suc n) (x # xs)))" by fastforce
    with c True n show ?thesis by auto
  qed
qed

lemma rev_descending_is_sort:
  assumes "sorted_wrt (>) (map f d)"
  shows "sort_key f d = rev d"
proof (rule sort_key_inj_key_eq)
  show "mset d = mset (rev d)" by simp
  from assms have "sorted_wrt (<) (rev (map f d))" by (simp add: sorted_wrt_rev)
  then have sd: "sorted (rev (map f d))" "distinct (rev (map f d))"
    by (simp_all add: strict_sorted_iff)
  from sd(1) show "sorted (map f (rev d))" by (simp add: rev_map)
  from sd(2) show "inj_on f (set d)" by (simp add: distinct_map)
qed

lemma countAndMakeRun_sorted:
  assumes "agrees cmp f (set xs)" and "2 \<le> length xs"
  shows "\<exists>n ys. countAndMakeRun cmp xs = Inr (n, ys) \<and> n \<le> length xs \<and>
           take n ys = sort_key f (take n xs) \<and> drop n ys = drop n xs"
proof -
  from assms(2) obtain x0 x1 zs where xs: "xs = x0 # x1 # zs"
    by (metis One_nat_def Suc_1 Suc_le_length_iff)
  let ?A = "set xs"
  from xs have in_A: "x0 \<in> ?A" "x1 \<in> ?A" "set zs \<subseteq> ?A" by auto
  from agreesD[OF assms(1) in_A(2,1)]
  obtain c where c: "cmp x1 x0 = Inr c" "c < 0 \<longleftrightarrow> f x1 < f x0" by blast
  show ?thesis
  proof (cases "c < 0")
    case False
    from countRun_ascending[OF assms(1) in_A(2,3)]
    obtain n where n: "countRun cmp False x1 zs = Inr n" "n \<le> length zs"
      "sorted (map f (x1 # take n zs))" by blast
    from False c n(3) have "sorted (map f (take (n + 2) xs))" by (auto simp: xs)
    then have "sort_key f (take (n + 2) xs) = take (n + 2) xs" by (rule sort_key_id_if_sorted)
    with c False n xs show ?thesis by simp
  next
    case True
    from countRun_descending[OF assms(1) in_A(2,3)]
    obtain n where n: "countRun cmp True x1 zs = Inr n" "n \<le> length zs"
      "sorted_wrt (>) (map f (x1 # take n zs))" by blast
    from True c n(3) have "sorted_wrt (>) (map f (take (n + 2) xs))" by (fastforce simp: xs)
    then have s: "sort_key f (take (n + 2) xs) = rev (take (n + 2) xs)"
      by (rule rev_descending_is_sort)
    from n(2) have len: "length (rev (take (n + 2) xs)) = n + 2" by (simp add: xs)
    have "countAndMakeRun cmp xs = Inr (n + 2, rev (take (n + 2) xs) @ drop (n + 2) xs)"
      using c True n(1) by (simp add: xs)
    moreover have "take (n + 2) (rev (take (n + 2) xs) @ drop (n + 2) xs) = rev (take (n + 2) xs)"
      using len by (metis append_eq_conv_conj)
    moreover have "drop (n + 2) (rev (take (n + 2) xs) @ drop (n + 2) xs) = drop (n + 2) xs"
      using len by (metis append_eq_conv_conj)
    moreover from n(2) have "n + 2 \<le> length xs" by (simp add: xs)
    ultimately show ?thesis using s by metis
  qed
qed

lemma findInsertion_sorted:
  "agrees cmp f A \<Longrightarrow> x \<in> A \<Longrightarrow> set a \<subseteq> A \<Longrightarrow> sorted (map f a) \<Longrightarrow>
   left \<le> right \<Longrightarrow> right \<le> length a \<Longrightarrow>
   \<forall>y\<in>set (take left a). f y \<le> f x \<Longrightarrow> \<forall>y\<in>set (drop right a). f x < f y \<Longrightarrow>
   \<exists>l. findInsertion cmp x a left right = Inr l \<and> l \<le> length a \<and>
       (\<forall>y\<in>set (take l a). f y \<le> f x) \<and> (\<forall>y\<in>set (drop l a). f x < f y)"
proof (induction cmp x a left right rule: findInsertion.induct)
  case (1 cmp pivot a left right)
  show ?case
  proof (cases "left < right")
    case False
    with "1.prems" have "left = right" by simp
    with "1.prems" show ?thesis by (simp add: findInsertion.simps)
  next
    case True
    let ?mid = "left + (right - left) div 2"
    from True "1.prems" have m: "left \<le> ?mid" "?mid < right" "?mid < length a" by auto
    then have "a ! ?mid \<in> A" using "1.prems"(3) by (meson nth_mem subsetD)
    from agreesD[OF "1.prems"(1,2) this]
    obtain c where c: "cmp pivot (a ! ?mid) = Inr c" "c < 0 \<longleftrightarrow> f pivot < f (a ! ?mid)"
      by blast
    show ?thesis
    proof (cases "c < 0")
      case True
      have "sorted (map f (drop ?mid a))"
        using "1.prems"(4) by (metis drop_map sorted_wrt_drop)
      moreover have "drop ?mid a = a ! ?mid # drop (Suc ?mid) a"
        using m(3) by (simp add: Cons_nth_drop_Suc)
      ultimately have "\<forall>y\<in>set (drop ?mid a). f (a ! ?mid) \<le> f y" by auto
      with True c have d: "\<forall>y\<in>set (drop ?mid a). f pivot < f y" by fastforce
      from m have "left \<le> ?mid" "?mid \<le> length a" by simp_all
      from "1.IH"(1)[OF \<open>left < right\<close> refl c(1) True "1.prems"(1,2,3,4) this "1.prems"(7) d]
      show ?thesis using \<open>left < right\<close> c True
        by (subst findInsertion.simps) (simp add: Let_def)
    next
      case False
      have "sorted (map f (take (Suc ?mid) a))"
        using "1.prems"(4) by (metis take_map sorted_wrt_take)
      moreover have "take (Suc ?mid) a = take ?mid a @ [a ! ?mid]"
        using m(3) by (simp add: take_Suc_conv_app_nth)
      ultimately have "\<forall>y\<in>set (take (Suc ?mid) a). f y \<le> f (a ! ?mid)"
        by (auto simp: sorted_append)
      with False c have t: "\<forall>y\<in>set (take (?mid + 1) a). f y \<le> f pivot" by fastforce
      from m have "?mid + 1 \<le> right" by simp
      from "1.IH"(2)[OF \<open>left < right\<close> refl c(1) False "1.prems"(1,2,3,4) this "1.prems"(6) t
          "1.prems"(8)]
      show ?thesis using \<open>left < right\<close> c False
        by (subst findInsertion.simps) (simp add: Let_def)
    qed
  qed
qed

lemma insert_is_sort:
  assumes a: "a = sort_key f P"
    and lo: "\<forall>y\<in>set (take l a). f y \<le> f x"
    and hi: "\<forall>y\<in>set (drop l a). f x < f y"
  shows "take l a @ x # drop l a = sort_key f (P @ [x])"
proof (rule properties_for_sort_key[symmetric])
  have "mset (take l a @ x # drop l a) = add_mset x (mset a)"
    by (metis append_take_drop_id mset.simps(2) mset_append union_mset_add_mset_right)
  then show "mset (take l a @ x # drop l a) = mset (P @ [x])" by (simp add: a)
next
  have "sorted (map f a)" by (simp add: a)
  then have "sorted (map f (take l a))" "sorted (map f (drop l a))"
    by (metis take_map sorted_wrt_take, metis drop_map sorted_wrt_drop)
  with lo hi show "sorted (map f (take l a @ x # drop l a))"
    by (fastforce simp: sorted_append)
next
  fix k
  have st: "filter (\<lambda>y. f k = f y) a = filter (\<lambda>y. f k = f y) P"
    using sort_key_stable[of f "f k" P] by (simp add: a eq_commute)
  have split: "filter (\<lambda>y. f k = f y) a =
      filter (\<lambda>y. f k = f y) (take l a) @ filter (\<lambda>y. f k = f y) (drop l a)"
    by (metis append_take_drop_id filter_append)
  show "filter (\<lambda>y. f k = f y) (take l a @ x # drop l a) = filter (\<lambda>y. f k = f y) (P @ [x])"
  proof (cases "f k = f x")
    case True
    with hi have "filter (\<lambda>y. f k = f y) (drop l a) = []" by (auto simp: filter_empty_conv)
    with True st split show ?thesis by simp
  next
    case False
    with st split show ?thesis by simp
  qed
qed

lemma binaryInsertionSort_sorted:
  "agrees cmp f A \<Longrightarrow> set P \<subseteq> A \<Longrightarrow> set rest \<subseteq> A \<Longrightarrow>
   binaryInsertionSort cmp (sort_key f P) rest = Inr (sort_key f (P @ rest))"
proof (induction rest arbitrary: P)
  case Nil
  then show ?case by simp
next
  case (Cons x rest)
  let ?a = "sort_key f P"
  from Cons.prems have x: "x \<in> A" "set ?a \<subseteq> A" by auto
  have "\<exists>l. findInsertion cmp x ?a 0 (length ?a) = Inr l \<and> l \<le> length ?a \<and>
       (\<forall>y\<in>set (take l ?a). f y \<le> f x) \<and> (\<forall>y\<in>set (drop l ?a). f x < f y)"
    by (rule findInsertion_sorted[OF Cons.prems(1) x]) simp_all
  then obtain l where l: "findInsertion cmp x ?a 0 (length ?a) = Inr l"
    "\<forall>y\<in>set (take l ?a). f y \<le> f x" "\<forall>y\<in>set (drop l ?a). f x < f y" by blast
  from insert_is_sort[OF refl l(2,3)]
  have e: "take l ?a @ x # drop l ?a = sort_key f (P @ [x])" .
  from Cons.prems have "set (P @ [x]) \<subseteq> A" "set rest \<subseteq> A" by auto
  from Cons.IH[OF Cons.prems(1) this] l(1) e show ?case by simp
qed

lemma sortM_agrees:
  assumes "agrees cmp f (set xs)"
  shows "sortM cmp xs = Inr (sort_key f xs)"
proof (cases "length xs < 2")
  case True
  then have "xs = [] \<or> (\<exists>x. xs = [x])"
    by (cases xs) (auto simp: length_Suc_conv)
  then show ?thesis by (auto simp: sortM_def)
next
  case False
  then have "2 \<le> length xs" by simp
  from countAndMakeRun_sorted[OF assms this]
  obtain n ys where r: "countAndMakeRun cmp xs = Inr (n, ys)"
    "take n ys = sort_key f (take n xs)" "drop n ys = drop n xs" by blast
  have "set (take n xs) \<subseteq> set xs" "set (drop n xs) \<subseteq> set xs"
    by (auto dest: in_set_takeD in_set_dropD)
  from binaryInsertionSort_sorted[OF assms this]
  have "binaryInsertionSort cmp (take n ys) (drop n ys) = Inr (sort_key f xs)"
    by (simp add: r)
  with r(1) False show ?thesis by (simp add: sortM_def)
qed

subsection \<open>The comparator and the chain\<close>

lemma compare_sortable:
  assumes "sortable a" and "sortable b"
  shows "\<exists>c. compareRequests a b = Inr c \<and> (c < 0 \<longleftrightarrow> sortKey a < sortKey b) \<and>
             (c = 0 \<longleftrightarrow> sortKey a = sortKey b)"
proof -
  from assms obtain ta tb where t: "getProp a ''createdAt'' = JTime ta"
    "getProp b ''createdAt'' = JTime tb"
    by (auto simp: sortable_def hasTimestamp_def isTimestamp_def split: jsval.splits)
  from assms have u: "hasUrgency a" "hasUrgency b" by (simp_all add: sortable_def)
  then show ?thesis
    unfolding hasUrgency_def
    by (elim disjE)
      (auto simp: t compareRequests_def js_less_def urgencyOrder_def createdAtMillis_def
        bindE_def sortKey_def rankOf_def millisOf_def)
qed

lemma agrees_sortable: "\<forall>r\<in>A. sortable r \<Longrightarrow> agrees compareRequests sortKey A"
  unfolding agrees_def by (blast intro: compare_sortable)

lemma sortStep_sortable:
  "\<forall>y\<in>set xs. sortable y \<Longrightarrow> sortStep xs = Inr (sort_key sortKey xs)"
  by (simp add: sortStep_def sortM_agrees agrees_sortable)

lemma filterStep_Inr:
  assumes "filterStep R g l = Inr F"
  shows "F = filter (\<lambda>r. locationPred l r = Inr True) (filter (\<lambda>r. bloodGroupPred g r = Inr True) R)"
proof -
  from assms obtain X where X: "filterM (bloodGroupPred g) R = Inr X"
      and F: "filterM (locationPred l) X = Inr F"
    by (auto simp: filterStep_def bindE_def split: sum.splits)
  from filterM_Inr[OF X] filterM_Inr[OF F] show ?thesis by simp
qed

lemma filterStep_subseq: "filterStep R g l = Inr F \<Longrightarrow> subseq F R"
  by (drule filterStep_Inr) (auto intro: subseq_order.trans[OF subseq_filter_left subseq_filter_left])

lemma filterStep_set: "filterStep R g l = Inr F \<Longrightarrow> set F \<subseteq> set R"
  by (drule filterStep_Inr) auto

lemma engine_split:
  "filteredRequests R g l = Inr out \<Longrightarrow> \<exists>F. filterStep R g l = Inr F \<and> sortStep F = Inr out"
  by (auto simp: filteredRequests_def bindE_def split: sum.splits)

lemma precedes_sortKey: "precedes a b \<longleftrightarrow> sortKey a \<le> sortKey b"
  by (auto simp: precedes_def sortKey_def)

lemma sorted_wrt_precedes_sort: "sorted_wrt precedes (sort_key sortKey xs)"
proof -
  have "sorted (map sortKey (sort_key sortKey xs))" by (rule sorted_sort_key)
  then show ?thesis by (simp add: sorted_map precedes_sortKey[abs_def])
qed

lemma rank_Urgent: "getProp r ''urgency'' = JStr ''Urgent'' \<longleftrightarrow> rankOf r = 1"
  by (auto simp: rankOf_def)

lemma rank_others: "getProp r ''urgency'' \<in> {JStr ''Moderate'', JStr ''Low''} \<Longrightarrow> 1 < rankOf r"
  by (auto simp: rankOf_def)

lemma rank_eq: "getProp a ''urgency'' = getProp b ''urgency'' \<Longrightarrow> rankOf a = rankOf b"
  by (simp add: rankOf_def)

section \<open>When the engine returns\<close>

text \<open>
  The engine raises only when it calls a method on a value that lacks it: the
  location filter is not empty and a record's location is not a string, or two
  records are compared by time and one has no timestamp. On other snapshots it
  returns.
\<close>

lemma compare_timestamps:
  "hasTimestamp a \<Longrightarrow> hasTimestamp b \<Longrightarrow> \<exists>c. compareRequests a b = Inr c"
  by (auto simp: hasTimestamp_def isTimestamp_def compareRequests_def createdAtMillis_def
      bindE_def split: jsval.splits)

lemma urgencyOrder_unlisted: "urgencyUnlisted a \<Longrightarrow> urgencyOrder (getProp a ''urgency'') = NoValue"
  by (auto simp: urgencyUnlisted_def urgencyOrder_def map_of_eq_None_iff
      split: jsval.splits option.splits)

lemma compare_unlisted:
  assumes "urgencyUnlisted a" and "hasTimestamp a" and "hasTimestamp b"
  shows "compareRequests a b = Inr (millisOf b - millisOf a) \<and>
         compareRequests b a = Inr (millisOf a - millisOf b)"
proof -
  have "\<not> js_less NoValue v" "\<not> js_less v NoValue" for v
    by (simp_all add: js_less_def split: looked_up.splits)
  with assms(2,3) show ?thesis
    by (auto simp: urgencyOrder_unlisted[OF assms(1)] hasTimestamp_def isTimestamp_def
        compareRequests_def createdAtMillis_def millisOf_def bindE_def split: jsval.splits)
qed

lemma filterM_returns:
  "\<forall>x\<in>set xs. \<exists>b. p x = Inr b \<Longrightarrow> \<exists>ys. filterM p xs = Inr ys"
  by (induction xs) (auto split: sum.splits)

lemma filterStep_returns:
  assumes "l = '''' \<or> (\<forall>r\<in>set R. hasLocation r)"
  shows "\<exists>F. filterStep R g l = Inr F"
proof -
  obtain X where X: "filterM (bloodGroupPred g) R = Inr X"
    using filterM_returns[of R "bloodGroupPred g"] by (auto simp: bloodGroupPred_def)
  from filterM_Inr[OF X] have "set X \<subseteq> set R" by auto
  with assms have "\<forall>x\<in>set X. \<exists>b. locationPred l x = Inr b"
    by (auto simp: locationPred_def hasLocation_def split: jsval.splits)
  then have "\<exists>F. filterM (locationPred l) X = Inr F" by (rule filterM_returns)
  with X show ?thesis by (simp add: filterStep_def bindE_def)
qed

lemma sortStep_returns:
  assumes "\<forall>r\<in>set F. hasTimestamp r"
  shows "\<exists>out. sortStep F = Inr out \<and> mset out = mset F"
proof -
  from assms have "\<forall>x\<in>set F. \<forall>y\<in>set F. \<exists>c. compareRequests x y = Inr c"
    by (blast intro: compare_timestamps)
  then have "\<exists>out. sortM compareRequests F = Inr out" by (rule sortM_returns)
  then show ?thesis by (auto simp: sortStep_def dest: sortM_mset)
qed


lemma filterStep_default: "filterStep R ''all'' '''' = Inr R"
proof -
  have a: "filterM (bloodGroupPred ''all'') R = Inr R"
    by (induction R) (simp_all add: bloodGroupPred_def)
  have b: "filterM (locationPred '''') R = Inr R"
    by (induction R) (simp_all add: locationPred_def)
  show ?thesis by (simp add: filterStep_def bindE_def a b)
qed

section \<open>The example records\<close>

lemmas example_defs =
  exampleModerate_def exampleUrgent_def exampleTie_def exampleNoUrgency_def
  exampleModerateNew_def exampleUrgentTwin_def exampleUrgent8000_def exampleUrgent9000_def
  exampleUrgent9999_def exampleLowPending_def exampleLowPendingToo_def

lemmas compare_eval =
  compareRequests_def js_less_def urgencyOrder_def getProp_def bindE_def createdAtMillis_def

lemmas sort_eval = sortStep_def sortM_def findInsertion.simps Let_def

lemma sortable_examples:
  "sortable exampleModerate" "sortable exampleUrgent" "sortable exampleTie"
  by (simp_all add: sortable_def hasUrgency_def hasTimestamp_def isTimestamp_def getProp_def
      example_defs)

lemma timestamp_examples:
  "hasTimestamp exampleModerate" "hasTimestamp exampleUrgent" "hasTimestamp exampleNoUrgency"
  "hasTimestamp exampleModerateNew"
  by (simp_all add: hasTimestamp_def isTimestamp_def getProp_def example_defs)

lemma sortStep_examples:
  "sortStep [exampleModerate, exampleUrgent] = Inr [exampleUrgent, exampleModerate]"
  "sortStep [exampleModerate, exampleUrgent, exampleTie] =
     Inr [exampleUrgent, exampleModerate, exampleTie]"
  "sortStep [exampleTie, exampleUrgent, exampleModerate] =
     Inr [exampleUrgent, exampleTie, exampleModerate]"
  "sortStep [exampleUrgent, exampleNoUrgency] = Inr [exampleNoUrgency, exampleUrgent]"
  "sortStep [exampleModerateNew, exampleNoUrgency, exampleUrgent] =
     Inr [exampleModerateNew, exampleNoUrgency, exampleUrgent]"
  "sortStep [exampleLowPending, exampleLowPendingToo] = Inl TypeError"
  by (simp_all add: sort_eval compare_eval example_defs)

lemma sortStep_example_twins:
  "sortStep [exampleUrgent9000, exampleUrgent8000, exampleModerateNew, exampleNoUrgency,
             exampleUrgent, exampleUrgent9999, exampleUrgentTwin] =
     Inr [exampleUrgent9999, exampleUrgent9000, exampleUrgent8000, exampleUrgentTwin,
          exampleModerateNew, exampleNoUrgency, exampleUrgent]"
  by (simp add: sort_eval compare_eval example_defs)

text \<open>Two names that \<^verbatim>\<open>Object.prototype\<close> answers are told apart by the urgency
  comparison, whatever the timestamps.\<close>

lemma compare_inherited_members:
  "getProp a ''urgency'' = JStr ''toString'' \<Longrightarrow> getProp b ''urgency'' = JStr ''valueOf'' \<Longrightarrow>
   compareRequests a b = Inr (- 1) \<and> compareRequests b a = Inr 1"
  by (simp add: compareRequests_def js_less_def urgencyOrder_def objectPrototype_def)

section \<open>Ordering of the output\<close>

text \<open>
  Claim C1, as amended. On a snapshot whose records are sortable, the output of the engine is
  ordered by the composite key: every record stands before the records of a
  later rank or of the same rank and an older or equal timestamp. In particular
  no \<^verbatim>\<open>Moderate\<close> or \<^verbatim>\<open>Low\<close> record stands before an \<^verbatim>\<open>Urgent\<close> one, whatever their
  timestamps, and of two records of equal urgency the one that stands first is at
  least as new.
\<close>

theorem C1_urgency_then_recency:
  assumes "\<forall>r\<in>set R. sortable r" and "filteredRequests R g l = Inr out"
  shows "sorted_wrt precedes out \<and>
    (\<forall>i j. i < j \<and> j < length out \<longrightarrow>
       (getProp (out ! j) ''urgency'' = JStr ''Urgent'' \<longrightarrow>
          getProp (out ! i) ''urgency'' \<notin> {JStr ''Moderate'', JStr ''Low''}) \<and>
       (getProp (out ! i) ''urgency'' = getProp (out ! j) ''urgency'' \<longrightarrow>
          millisOf (out ! j) \<le> millisOf (out ! i)))"
proof -
  from engine_split[OF assms(2)] obtain F where F: "filterStep R g l = Inr F"
    and S: "sortStep F = Inr out" by blast
  from filterStep_set[OF F] assms(1) have "\<forall>r\<in>set F. sortable r" by blast
  from sortStep_sortable[OF this] S have out: "out = sort_key sortKey F" by simp
  then have sw: "sorted_wrt precedes out" by (simp add: sorted_wrt_precedes_sort)
  have "(getProp (out ! j) ''urgency'' = JStr ''Urgent'' \<longrightarrow>
          getProp (out ! i) ''urgency'' \<notin> {JStr ''Moderate'', JStr ''Low''}) \<and>
       (getProp (out ! i) ''urgency'' = getProp (out ! j) ''urgency'' \<longrightarrow>
          millisOf (out ! j) \<le> millisOf (out ! i))" if "i < j" "j < length out" for i j
  proof -
    from sw that have p: "precedes (out ! i) (out ! j)"
      by (simp add: sorted_wrt_iff_nth_less)
    show ?thesis
    proof (intro conjI impI)
      assume u: "getProp (out ! j) ''urgency'' = JStr ''Urgent''"
      show "getProp (out ! i) ''urgency'' \<notin> {JStr ''Moderate'', JStr ''Low''}"
      proof
        assume "getProp (out ! i) ''urgency'' \<in> {JStr ''Moderate'', JStr ''Low''}"
        from rank_others[OF this] u p show False
          by (simp add: rank_Urgent precedes_def)
      qed
    next
      assume "getProp (out ! i) ''urgency'' = getProp (out ! j) ''urgency''"
      from rank_eq[OF this] p show "millisOf (out ! j) \<le> millisOf (out ! i)"
        by (simp add: precedes_def)
    qed
  qed
  with sw show ?thesis by blast
qed

text \<open>The two records of the specification's first scenario: the older \<^verbatim>\<open>Urgent\<close>
  record comes out in front of the newer \<^verbatim>\<open>Moderate\<close> one.\<close>

theorem C1_urgency_then_recency_witness:
  "sortable exampleModerate \<and> sortable exampleUrgent \<and>
   filteredRequests [exampleModerate, exampleUrgent] ''all'' '''' =
     Inr [exampleUrgent, exampleModerate] \<and>
   sorted_wrt precedes [exampleUrgent, exampleModerate]"
proof -
  have h1: "\<forall>r\<in>set [exampleModerate, exampleUrgent]. sortable r"
    by (simp add: sortable_examples)
  have h2: "filteredRequests [exampleModerate, exampleUrgent] ''all'' '''' =
     Inr [exampleUrgent, exampleModerate]"
    by (simp add: filteredRequests_def filterStep_default bindE_def sortStep_examples)
  from C1_urgency_then_recency[OF h1 h2] have "sorted_wrt precedes [exampleUrgent, exampleModerate]"
    by blast
  with h2 sortable_examples show ?thesis by blast
qed

text \<open>
  The claim as stated, for every snapshot, fails. Between a \<^verbatim>\<open>Moderate\<close> record and
  an older \<^verbatim>\<open>Urgent\<close> one stands a record without urgency whose timestamp lies
  between theirs. Each record compares as not smaller than the one before it, so
  the sort takes the snapshot for sorted and returns it as it is, the \<^verbatim>\<open>Moderate\<close>
  record in front of the \<^verbatim>\<open>Urgent\<close> one.
\<close>

theorem C1_no_urgency_counterexample:
  "getProp exampleModerateNew ''urgency'' = JStr ''Moderate'' \<and>
   getProp exampleUrgent ''urgency'' = JStr ''Urgent'' \<and>
   filteredRequests [exampleModerateNew, exampleNoUrgency, exampleUrgent] ''all'' '''' =
     Inr [exampleModerateNew, exampleNoUrgency, exampleUrgent]"
  by (simp add: filteredRequests_def filterStep_default bindE_def sortStep_examples)
    (simp add: getProp_def example_defs)

section \<open>Records without an urgency\<close>

text \<open>
  Claim C2, as amended. The sort raises no error for a record whose urgency is
  missing or is not one of the three ranks. If every record of the snapshot has
  a timestamp as its \<^verbatim>\<open>createdAt\<close>, and a string as its location when the location
  filter is not empty, then the two filters return and the engine returns an
  ordering that holds exactly the records they retain. A record whose urgency is
  absent, or is a value that names neither a rank nor a member of
  \<^verbatim>\<open>Object.prototype\<close>, is compared with every record of the snapshot by
  \<^verbatim>\<open>createdAt\<close> alone, the newer one first.
\<close>

theorem C2_missing_urgency_falls_through:
  assumes "\<forall>r\<in>set R. hasTimestamp r" and "l = '''' \<or> (\<forall>r\<in>set R. hasLocation r)"
  shows "(\<exists>F out. filterStep R g l = Inr F \<and> filteredRequests R g l = Inr out \<and>
            mset out = mset F) \<and>
    (\<forall>a\<in>set R. \<forall>b\<in>set R. urgencyUnlisted a \<longrightarrow>
       compareRequests a b = Inr (millisOf b - millisOf a) \<and>
       compareRequests b a = Inr (millisOf a - millisOf b))"
proof -
  from filterStep_returns[OF assms(2)] obtain F where F: "filterStep R g l = Inr F" ..
  from filterStep_set[OF F] assms(1) have "\<forall>r\<in>set F. hasTimestamp r" by blast
  from sortStep_returns[OF this] obtain out where out: "sortStep F = Inr out"
    "mset out = mset F" by blast
  from F out(1) have "filteredRequests R g l = Inr out"
    by (simp add: filteredRequests_def bindE_def)
  with F out(2) have "\<exists>F out. filterStep R g l = Inr F \<and> filteredRequests R g l = Inr out \<and>
            mset out = mset F" by blast
  moreover from assms(1) have "\<forall>a\<in>set R. \<forall>b\<in>set R. urgencyUnlisted a \<longrightarrow>
       compareRequests a b = Inr (millisOf b - millisOf a) \<and>
       compareRequests b a = Inr (millisOf a - millisOf b)"
    by (simp add: compare_unlisted)
  ultimately show ?thesis by blast
qed

lemma examples_noUrgency:
  "urgencyUnlisted exampleNoUrgency" "\<not> hasUrgency exampleNoUrgency"
  "millisOf exampleNoUrgency = 3000" "millisOf exampleUrgent = 1000"
  by (simp_all add: urgencyUnlisted_def hasUrgency_def getProp_def millisOf_def example_defs)

text \<open>
  The claim as stated fails: on a snapshot holding a record without urgency the
  engine returns an ordering, with that record placed by its timestamp in front
  of an \<^verbatim>\<open>Urgent\<close> record.
\<close>

theorem C2_missing_urgency_counterexample:
  "\<not> hasUrgency exampleNoUrgency \<and>
   filteredRequests [exampleUrgent, exampleNoUrgency] ''all'' '''' =
     Inr [exampleNoUrgency, exampleUrgent]"
  by (simp add: filteredRequests_def filterStep_default bindE_def sortStep_examples
      examples_noUrgency)

theorem C2_missing_urgency_falls_through_witness:
  "hasTimestamp exampleUrgent \<and> hasTimestamp exampleNoUrgency \<and>
   urgencyUnlisted exampleNoUrgency \<and>
   compareRequests exampleNoUrgency exampleUrgent = Inr (- 2000) \<and>
   compareRequests exampleUrgent exampleNoUrgency = Inr 2000"
proof -
  have h1: "\<forall>r\<in>set [exampleUrgent, exampleNoUrgency]. hasTimestamp r"
    by (simp add: timestamp_examples)
  have h2: "'''' = '''' \<or> (\<forall>r\<in>set [exampleUrgent, exampleNoUrgency]. hasLocation r)"
    by simp
  from C2_missing_urgency_falls_through[OF h1 h2]
  have "compareRequests exampleNoUrgency exampleUrgent =
          Inr (millisOf exampleUrgent - millisOf exampleNoUrgency) \<and>
        compareRequests exampleUrgent exampleNoUrgency =
          Inr (millisOf exampleNoUrgency - millisOf exampleUrgent)"
    by (simp add: examples_noUrgency)
  then show ?thesis by (simp add: examples_noUrgency timestamp_examples)
qed

section \<open>Soundness of the filters\<close>

text \<open>
  Claim C3. Every record the engine returns is a record of the input; its blood
  group is the selected one unless the selection is \<^verbatim>\<open>"all"\<close>; and its location is
  a string that contains the location filter, both in lower case, unless that
  filter is empty.
\<close>

theorem C3_filter_sound:
  assumes "filteredRequests R g l = Inr out"
  shows "\<forall>r\<in>set out.
     r \<in> set R \<and>
     (g = ''all'' \<or> getProp r ''bloodGroup'' = JStr g) \<and>
     (l = '''' \<or> (\<exists>s. getProp r ''location'' = JStr s \<and> sublist (toLowerCase l) (toLowerCase s)))"
proof
  fix r assume r: "r \<in> set out"
  from engine_split[OF assms] obtain F where F: "filterStep R g l = Inr F"
    and S: "sortStep F = Inr out" by blast
  from S have "mset out = mset F" by (simp add: sortStep_def sortM_mset)
  then have "set out = set F" by (rule mset_eq_setD)
  with r filterStep_Inr[OF F]
  have rR: "r \<in> set R" and bg: "bloodGroupPred g r = Inr True"
    and loc: "locationPred l r = Inr True" by auto
  from bg have 1: "g = ''all'' \<or> getProp r ''bloodGroup'' = JStr g"
    by (simp add: bloodGroupPred_def)
  from loc have 2: "l = '''' \<or>
      (\<exists>s. getProp r ''location'' = JStr s \<and> sublist (toLowerCase l) (toLowerCase s))"
    by (auto simp: locationPred_def includes_sublist split: if_splits jsval.splits)
  from rR 1 2 show "r \<in> set R \<and>
     (g = ''all'' \<or> getProp r ''bloodGroup'' = JStr g) \<and>
     (l = '''' \<or> (\<exists>s. getProp r ''location'' = JStr s \<and> sublist (toLowerCase l) (toLowerCase s)))"
    by blast
qed

theorem C3_filter_sound_witness:
  "filteredRequests [exampleModerate, exampleUrgent] ''A+'' ''dha'' = Inr [exampleModerate] \<and>
   getProp exampleModerate ''bloodGroup'' = JStr ''A+'' \<and>
   (\<exists>s. getProp exampleModerate ''location'' = JStr s \<and> sublist ''dha'' (toLowerCase s))"
proof -
  have h: "filteredRequests [exampleModerate, exampleUrgent] ''A+'' ''dha'' = Inr [exampleModerate]"
    by (simp add: filteredRequests_def filterStep_def sortStep_def sortM_def bindE_def
        bloodGroupPred_def locationPred_def getProp_def exampleModerate_def exampleUrgent_def
        toLowerCase_def lowerChar_def)
  have low: "toLowerCase ''dha'' = ''dha''" by (simp add: toLowerCase_def lowerChar_def)
  from C3_filter_sound[OF h] low h show ?thesis by simp
qed

section \<open>The subscription's callbacks and the loading flag\<close>

lemma fetchedRequests_map: "fetchedRequests docs = map toBloodRequest docs"
proof -
  have "fold (\<lambda>d acc. acc @ [toBloodRequest d]) docs acc = acc @ map toBloodRequest docs"
    for acc
    by (induction docs arbitrary: acc) simp_all
  then show ?thesis by (simp add: fetchedRequests_def)
qed

text \<open>
  Claim C4. The error callback sets the loading flag to false, leaves the records
  of the last snapshot and both filters as they are, and opens no subscription:
  its only effect is the log entry.
\<close>

theorem C4_error_keeps_snapshot:
  "loading (fst (handle SubscriptionError s)) = False \<and>
   requests (fst (handle SubscriptionError s)) = requests s \<and>
   bloodGroupFilter (fst (handle SubscriptionError s)) = bloodGroupFilter s \<and>
   locationFilter (fst (handle SubscriptionError s)) = locationFilter s \<and>
   snd (handle SubscriptionError s) = [ConsoleError] \<and>
   Subscribe \<notin> set (snd (handle SubscriptionError s)) \<and>
   requests (run [Snapshot docs, SubscriptionError] s) = fetchedRequests docs \<and>
   loading (run [Snapshot docs, SubscriptionError] s) = False"
  by simp

lemma loading_run:
  "loading (run es s) = (loading s \<and> (\<forall>e\<in>set es. \<not> isCallback e))"
proof (induction es arbitrary: s)
  case Nil
  then show ?case by simp
next
  case (Cons e es)
  show ?case by (cases e) (auto simp: Cons.IH isCallback_def resetFilters_def)
qed

text \<open>
  Claim C5. The loading flag starts as true; after any sequence of events it is
  still true exactly when neither callback of the subscription has run; and from
  a state in which it is false no sequence of events makes it true again.
\<close>

theorem C5_loading_flag:
  "loading initialState \<and>
   (loading (run es initialState) \<longleftrightarrow> (\<forall>e\<in>set es. \<not> isCallback e)) \<and>
   (\<not> loading s \<longrightarrow> \<not> loading (run es' s))"
  by (simp add: loading_run) (simp add: initialState_def)

theorem C5_loading_flag_witness:
  "loading (run [Mount, SetLocationFilter ''dha''] initialState) \<and>
   \<not> loading (fst (handle SubscriptionError initialState)) \<and>
   \<not> loading (run [Snapshot [], ResetFilters, SetBloodGroupFilter ''A+'', Snapshot [], Unmount]
                 (fst (handle SubscriptionError initialState)))"
proof -
  have h: "\<not> loading (fst (handle SubscriptionError initialState))" by simp
  have "loading (run [Mount, SetLocationFilter ''dha''] initialState)"
    using C5_loading_flag[of "[Mount, SetLocationFilter ''dha'']" initialState "[]"]
    by (simp add: isCallback_def)
  moreover have "\<not> loading (run [Snapshot [], ResetFilters, SetBloodGroupFilter ''A+'', Snapshot [], Unmount]
                 (fst (handle SubscriptionError initialState)))"
    using C5_loading_flag[of "[]" "fst (handle SubscriptionError initialState)"
        "[Snapshot [], ResetFilters, SetBloodGroupFilter ''A+'', Snapshot [], Unmount]"] h
    by blast
  ultimately show ?thesis using h by blast
qed

section \<open>Stability and idempotence of the sort\<close>

text \<open>
  Claim C6, as amended. On sortable records the sort step returns, and for every
  value of the composite key the records with that key stand in the output in
  the order in which they stand in the input. The same holds for the engine with
  respect to the records its filters retain, which keep the order of the
  snapshot.
\<close>

theorem C6_sort_stable:
  assumes "\<forall>r\<in>set R. sortable r"
  shows "(\<exists>S. sortStep R = Inr S \<and>
            (\<forall>k. filter (\<lambda>r. sortKey r = k) S = filter (\<lambda>r. sortKey r = k) R)) \<and>
         (\<forall>F. filterStep R g l = Inr F \<longrightarrow>
            subseq F R \<and>
            (\<exists>out. filteredRequests R g l = Inr out \<and>
               (\<forall>k. filter (\<lambda>r. sortKey r = k) out = filter (\<lambda>r. sortKey r = k) F)))"
proof (intro conjI allI impI)
  show "\<exists>S. sortStep R = Inr S \<and>
            (\<forall>k. filter (\<lambda>r. sortKey r = k) S = filter (\<lambda>r. sortKey r = k) R)"
    using sortStep_sortable[OF assms] by (simp add: sort_key_stable)
next
  fix F assume F: "filterStep R g l = Inr F"
  then show "subseq F R" by (rule filterStep_subseq)
  from filterStep_set[OF F] assms have "\<forall>r\<in>set F. sortable r" by blast
  from sortStep_sortable[OF this] F
  show "\<exists>out. filteredRequests R g l = Inr out \<and>
               (\<forall>k. filter (\<lambda>r. sortKey r = k) out = filter (\<lambda>r. sortKey r = k) F)"
    by (simp add: filteredRequests_def bindE_def sort_key_stable)
qed

lemma sortKey_examples:
  "sortKey exampleModerate = (2, - 2000)" "sortKey exampleUrgent = (1, - 1000)"
  "sortKey exampleTie = (2, - 2000)" "sortKey exampleUrgentTwin = (1, - 1000)"
  by (simp_all add: sortKey_def rankOf_def millisOf_def getProp_def example_defs)

lemma id_examples:
  "getProp exampleModerate ''id'' = JStr ''1''" "getProp exampleTie ''id'' = JStr ''3''"
  "getProp exampleUrgent ''id'' = JStr ''2''" "getProp exampleUrgentTwin ''id'' = JStr ''6''"
  by (simp_all add: getProp_def example_defs)

theorem C6_sort_stable_witness:
  "sortable exampleModerate \<and> sortable exampleUrgent \<and> sortable exampleTie \<and>
   sortKey exampleModerate = sortKey exampleTie \<and>
   getProp exampleModerate ''id'' = JStr ''1'' \<and> getProp exampleTie ''id'' = JStr ''3'' \<and>
   sortStep [exampleModerate, exampleUrgent, exampleTie] =
     Inr [exampleUrgent, exampleModerate, exampleTie] \<and>
   filter (\<lambda>r. sortKey r = sortKey exampleTie) [exampleUrgent, exampleModerate, exampleTie] =
     [exampleModerate, exampleTie]"
proof -
  have h: "\<forall>r\<in>set [exampleModerate, exampleUrgent, exampleTie]. sortable r"
    by (simp add: sortable_examples)
  from C6_sort_stable[OF h, of "''all''" "''''"]
  obtain S where S: "sortStep [exampleModerate, exampleUrgent, exampleTie] = Inr S"
    and st: "\<forall>k. filter (\<lambda>r. sortKey r = k) S =
                filter (\<lambda>r. sortKey r = k) [exampleModerate, exampleUrgent, exampleTie]"
    by blast
  from S have "S = [exampleUrgent, exampleModerate, exampleTie]"
    by (simp add: sortStep_examples)
  with st
  have "filter (\<lambda>r. sortKey r = sortKey exampleTie) [exampleUrgent, exampleModerate, exampleTie] =
        filter (\<lambda>r. sortKey r = sortKey exampleTie) [exampleModerate, exampleUrgent, exampleTie]"
    by blast
  then show ?thesis
    by (simp add: sortable_examples sortStep_examples sortKey_examples id_examples)
qed

text \<open>
  The claim as stated, for every input sequence, fails. The two \<^verbatim>\<open>Urgent\<close> records
  with identifiers 2 and 6 have the same urgency and the same timestamp, and 2
  stands before 6 in the input. A record without urgency stands among the
  others, so the comparator is no consistent ordering of this input, and the
  binary search places 6 in front of 2.
\<close>

theorem C6_no_urgency_counterexample:
  "sortKey exampleUrgent = sortKey exampleUrgentTwin \<and>
   getProp exampleUrgent ''urgency'' = getProp exampleUrgentTwin ''urgency'' \<and>
   getProp exampleUrgent ''createdAt'' = getProp exampleUrgentTwin ''createdAt'' \<and>
   getProp exampleUrgent ''id'' = JStr ''2'' \<and>
   getProp exampleUrgentTwin ''id'' = JStr ''6'' \<and>
   sortStep [exampleUrgent9000, exampleUrgent8000, exampleModerateNew, exampleNoUrgency,
             exampleUrgent, exampleUrgent9999, exampleUrgentTwin] =
     Inr [exampleUrgent9999, exampleUrgent9000, exampleUrgent8000, exampleUrgentTwin,
          exampleModerateNew, exampleNoUrgency, exampleUrgent]"
  by (simp add: sortStep_example_twins sortKey_examples id_examples)
    (simp add: getProp_def example_defs)




section \<open>Resetting the filters\<close>



section \<open>The engine does not write to its input\<close>



section \<open>From documents to records\<close>

text \<open>The payload is spread after \<^verbatim>\<open>id\<close>: when it has an \<^verbatim>\<open>id\<close> key of its own, that
  value is the record's \<^verbatim>\<open>id\<close>, not the document identifier.\<close>

lemma toBloodRequest_payload_id:
  "docData d ''id'' = Some v \<Longrightarrow> getProp (toBloodRequest d) ''id'' = v"
  by (simp add: toBloodRequest_def getProp_def map_add_def)

text \<open>
  Claim C10, as amended. For a document whose payload has no \<^verbatim>\<open>id\<close> key, the
  record's \<^verbatim>\<open>id\<close> is the document identifier. The record's \<^verbatim>\<open>createdAt\<close> is the
  payload's \<^verbatim>\<open>createdAt\<close> as it is stored: the cast converts nothing, so the field
  is a timestamp exactly when the stored value is one. Every other field of the
  payload is carried over, and the snapshot callback stores the records of the
  documents in the order of delivery.
\<close>

theorem C10_record_from_document:
  "(''id'' \<notin> dom (docData d) \<longrightarrow> getProp (toBloodRequest d) ''id'' = JStr (docId d)) \<and>
   getProp (toBloodRequest d) ''createdAt'' = getProp (docData d) ''createdAt'' \<and>
   (isTimestamp (getProp (toBloodRequest d) ''createdAt'') \<longleftrightarrow>
      isTimestamp (getProp (docData d) ''createdAt'')) \<and>
   (\<forall>k. k \<noteq> ''id'' \<and> k \<noteq> ''createdAt'' \<longrightarrow> toBloodRequest d k = docData d k) \<and>
   requests (fst (handle (Snapshot docs) s)) = map toBloodRequest docs"
  by (auto simp: toBloodRequest_def getProp_def map_add_def fetchedRequests_map dom_def
      split: option.splits)

theorem C10_record_from_document_witness:
  "''id'' \<notin> dom (docData exampleDoc) \<and>
   getProp (toBloodRequest exampleDoc) ''id'' = JStr ''abc'' \<and>
   getProp (toBloodRequest exampleDoc) ''createdAt'' = JTime (Timestamp 2000)"
proof -
  have h: "''id'' \<notin> dom (docData exampleDoc)"
    by (simp add: exampleDoc_def dom_def)
  from C10_record_from_document[of exampleDoc "[]" undefined] h
  have "getProp (toBloodRequest exampleDoc) ''id'' = JStr (docId exampleDoc)"
    and "getProp (toBloodRequest exampleDoc) ''createdAt'' = getProp (docData exampleDoc) ''createdAt''"
    by blast+
  with h show ?thesis by (simp add: exampleDoc_def getProp_def)
qed

text \<open>
  The claim as stated fails: a document whose stored \<^verbatim>\<open>createdAt\<close> is a text gives a
  record whose \<^verbatim>\<open>createdAt\<close> is that same text, not a timestamp.
\<close>

theorem C10_createdAt_counterexample:
  "getProp (toBloodRequest exampleDocTextDate) ''createdAt'' = JStr ''2024-05-01'' \<and>
   \<not> isTimestamp (getProp (toBloodRequest exampleDocTextDate) ''createdAt'')"
  by (simp add: toBloodRequest_def getProp_def exampleDocTextDate_def isTimestamp_def)

end
